theory Spec2Isabelle
  imports Main
begin

section \<open>Strings and character classes\<close>

text \<open>
  A Python \<open>str\<close> is modelled as a \<open>string\<close> (a list of \<open>char\<close>); a character
  is read as the code point of the same number, so the model covers text whose code
  points are below 256 (ASCII and Latin-1). The character classes below are those of
  Python 3 on that range.
\<close>

definition is_upper :: "char \<Rightarrow> bool" where
  \<comment> \<open>the class \<open>[A-Z]\<close> of a regular expression\<close>
  "is_upper c = (65 \<le> (of_char c :: nat) \<and> (of_char c :: nat) \<le> 90)"

definition is_digit :: "char \<Rightarrow> bool" where
  \<comment> \<open>the class \<open>\d\<close> of a \<open>str\<close> pattern: the decimal digits (category Nd), which
      below 256 are \<open>0\<close> to \<open>9\<close>\<close>
  "is_digit c = (48 \<le> (of_char c :: nat) \<and> (of_char c :: nat) \<le> 57)"

definition is_space :: "char \<Rightarrow> bool" where
  \<comment> \<open>the whitespace of \<open>str.strip()\<close>, \<open>str.split()\<close> and \<open>str.isspace()\<close>\<close>
  "is_space c = (c \<in> set [CHR 0x09, CHR 0x0A, CHR 0x0B, CHR 0x0C, CHR 0x0D,
                            CHR 0x1C, CHR 0x1D, CHR 0x1E, CHR 0x1F, CHR 0x20,
                            CHR 0x85, CHR 0xA0])"

definition is_alpha :: "char \<Rightarrow> bool" where
  \<comment> \<open>a letter (categories Lu, Ll, Lt, Lm, Lo), as \<open>str.isalpha()\<close> tests each character\<close>
  "is_alpha c = (let n = (of_char c :: nat) in
       (65 \<le> n \<and> n \<le> 90) \<or> (97 \<le> n \<and> n \<le> 122) \<or> n = 170 \<or> n = 181 \<or> n = 186 \<or>
       (192 \<le> n \<and> n \<le> 214) \<or> (216 \<le> n \<and> n \<le> 246) \<or> (248 \<le> n \<and> n \<le> 255))"

definition isalpha :: "string \<Rightarrow> bool" where
  \<comment> \<open>\<open>s.isalpha()\<close>: at least one character, and all of them letters\<close>
  "isalpha s = (s \<noteq> [] \<and> list_all is_alpha s)"

definition strip :: "string \<Rightarrow> string" where
  \<comment> \<open>\<open>s.strip()\<close>\<close>
  "strip s = rev (dropWhile is_space (rev (dropWhile is_space s)))"

definition strip_chr :: "char \<Rightarrow> string \<Rightarrow> string" where
  \<comment> \<open>\<open>s.strip(c)\<close> for a one-character argument\<close>
  "strip_chr c s = rev (dropWhile (\<lambda>x. x = c) (rev (dropWhile (\<lambda>x. x = c) s)))"

definition rstrip_chr :: "char \<Rightarrow> string \<Rightarrow> string" where
  \<comment> \<open>\<open>s.rstrip(c)\<close> for a one-character argument\<close>
  "rstrip_chr c s = rev (dropWhile (\<lambda>x. x = c) (rev s))"

definition replace_chr :: "char \<Rightarrow> char \<Rightarrow> string \<Rightarrow> string" where
  \<comment> \<open>\<open>s.replace(a, b)\<close> for one-character arguments\<close>
  "replace_chr a b s = map (\<lambda>x. if x = a then b else x) s"

definition startswith :: "string \<Rightarrow> char \<Rightarrow> bool" where
  \<comment> \<open>\<open>s.startswith(c)\<close> for a one-character argument\<close>
  "startswith s c = (case s of [] \<Rightarrow> False | x # _ \<Rightarrow> x = c)"

definition before_dot :: "string \<Rightarrow> string" where
  \<comment> \<open>\<open>s.split(".")[0]\<close>: the part before the first dot, all of \<open>s\<close> when it has none
      (the list \<open>s.split(".")\<close> is never empty, so the index cannot fail)\<close>
  "before_dot s = takeWhile (\<lambda>x. x \<noteq> CHR ''.'') s"

function split_ws :: "string \<Rightarrow> string list" where
  \<comment> \<open>\<open>s.split()\<close>: the maximal runs of non-whitespace characters\<close>
  "split_ws s =
     (let t = dropWhile is_space s
      in if t = [] then []
         else takeWhile (\<lambda>x. \<not> is_space x) t # split_ws (dropWhile (\<lambda>x. \<not> is_space x) t))"
  by pat_completeness auto
termination
proof (relation "measure length")
  show "wf (measure length)" by simp
next
  fix s t :: string
  assume t: "t = dropWhile is_space s" and ne: "t \<noteq> []"
  from ne obtain x xs where tx: "t = x # xs" by (cases t) auto
  with t have "\<not> is_space x" by (metis hd_dropWhile list.sel(1) ne)
  then have "length (dropWhile (\<lambda>x. \<not> is_space x) t) \<le> length xs"
    using tx by (simp add: length_dropWhile_le)
  moreover have "length t \<le> length s" using t by (simp add: length_dropWhile_le)
  ultimately show "(dropWhile (\<lambda>x. \<not> is_space x) t, s) \<in> measure length"
    using tx by simp
qed

declare split_ws.simps [simp del]

datatype py_error = IndexError | OSError

definition py_index :: "'a list \<Rightarrow> nat \<Rightarrow> py_error + 'a" where
  \<comment> \<open>\<open>xs[i]\<close> for an index that is not negative\<close>
  "py_index xs i = (if i < length xs then Inr (xs ! i) else Inl IndexError)"

section \<open>The accession pattern\<close>

text \<open>
  \<open>ACCESSION_RE = re.compile(r"[A-Z]{1,3}_\d+\.\d+")\<close>. A match attempt at the start of
  \<open>s\<close> takes one to three capital letters, greedily; the next character must be the
  underscore, so giving a letter back never helps, and the attempt succeeds only if the
  whole run of capitals has at most three letters. Both runs of digits are greedy in the
  same way: a shorter run would be followed by a digit, never by the dot.
\<close>

definition ACCESSION_match :: "string \<Rightarrow> string option" where
  "ACCESSION_match s =
     (let us = takeWhile is_upper s; r1 = dropWhile is_upper s
      in if us = [] \<or> 3 < length us then None
         else (case r1 of
                 [] \<Rightarrow> None
               | c # r2 \<Rightarrow>
                   if c \<noteq> CHR ''_'' then None
                   else (let d1 = takeWhile is_digit r2; r3 = dropWhile is_digit r2
                         in if d1 = [] then None
                            else (case r3 of
                                    [] \<Rightarrow> None
                                  | e # r4 \<Rightarrow>
                                      if e \<noteq> CHR ''.'' then None
                                      else (let d2 = takeWhile is_digit r4
                                            in if d2 = [] then None
                                               else Some (us @ CHR ''_'' # d1 @ CHR ''.'' # d2))))))"

fun ACCESSION_search :: "string \<Rightarrow> string option" where
  \<comment> \<open>\<open>ACCESSION_RE.search(s)\<close>, then \<open>m.group(0)\<close>: the match at the leftmost position
      that has one\<close>
  "ACCESSION_search [] = ACCESSION_match []"
| "ACCESSION_search (c # cs) =
     (case ACCESSION_match (c # cs) of
        Some m \<Rightarrow> Some m
      | None \<Rightarrow> ACCESSION_search cs)"

definition version_fullmatch :: "string \<Rightarrow> bool" where
  \<comment> \<open>\<open>re.match(r"^\d+\.\d+$", s)\<close>; the \<open>$\<close> also matches before a final newline\<close>
  "version_fullmatch s =
     (let d1 = takeWhile is_digit s; r1 = dropWhile is_digit s
      in d1 \<noteq> [] \<and>
         (case r1 of
            [] \<Rightarrow> False
          | e # r2 \<Rightarrow>
              e = CHR ''.'' \<and>
              (let d2 = takeWhile is_digit r2; r3 = dropWhile is_digit r2
               in d2 \<noteq> [] \<and> (r3 = [] \<or> r3 = [CHR 0x0A]))))"

section \<open>Errors as values\<close>

definition py_bind :: "py_error + 'a \<Rightarrow> ('a \<Rightarrow> py_error + 'b) \<Rightarrow> py_error + 'b" where
  \<comment> \<open>run the first computation; an exception it raises is the result, otherwise go on
      with its value\<close>
  "py_bind r f = (case r of Inl e \<Rightarrow> Inl e | Inr x \<Rightarrow> f x)"

section \<open>The target parser: \<open>parse_targets\<close>\<close>

type_synonym targets = "string set \<times> string set"
  \<comment> \<open>\<open>(with_version, no_version)\<close>\<close>

definition normalize_acc :: "string \<Rightarrow> string option" where
  \<comment> \<open>lines 41 to 55 of \<open>_add\<close>: \<open>None\<close> is the early \<open>return\<close> on an empty candidate\<close>
  "normalize_acc acc0 =
     (let acc1 = strip acc0
      in if acc1 = [] then None
         else (let acc2 = replace_chr (CHR '' '') (CHR ''_'') acc1;
                   acc3 = (if CHR ''|'' \<in> set acc2
                           then (case ACCESSION_search acc2 of Some m \<Rightarrow> m | None \<Rightarrow> acc2)
                           else acc2);
                   acc4 = (case ACCESSION_search acc3 of Some m \<Rightarrow> m | None \<Rightarrow> acc3)
               in Some acc4))"

definition insert_acc :: "targets \<Rightarrow> string \<Rightarrow> targets" where
  \<comment> \<open>lines 57 to 62 of \<open>_add\<close>\<close>
  "insert_acc T acc =
     (if CHR ''.'' \<in> set acc
      then (insert acc (fst T), insert (before_dot acc) (snd T))
      else (fst T, insert acc (snd T)))"

definition parse_targets_add :: "targets \<Rightarrow> string \<Rightarrow> targets" where
  \<comment> \<open>the helper \<open>_add\<close> of \<open>parse_targets\<close>, the two sets passed in and returned\<close>
  "parse_targets_add T acc =
     (case normalize_acc acc of None \<Rightarrow> T | Some a \<Rightarrow> insert_acc T a)"

definition join_cond :: "string list \<Rightarrow> py_error + bool" where
  \<comment> \<open>\<open>len(toks) >= 2 and toks[0].isalpha() and re.match(r"^\d+\.\d+$", toks[1])\<close>,
      evaluated from left to right\<close>
  "join_cond toks =
     (if 2 \<le> length toks
      then py_bind (py_index toks 0) (\<lambda>t0.
             if isalpha t0
             then py_bind (py_index toks 1) (\<lambda>t1. Inr (version_fullmatch t1))
             else Inr False)
      else Inr False)"

definition parse_line :: "targets \<Rightarrow> string \<Rightarrow> py_error + targets" where
  \<comment> \<open>the body of the loop over the lines of the list file\<close>
  "parse_line T raw =
     (let line = strip raw
      in if line = [] \<or> startswith line (CHR ''#'') then Inr T
         else (case ACCESSION_search (replace_chr (CHR '' '') (CHR ''_'') line) of
                 Some m \<Rightarrow> Inr (parse_targets_add T m)
               | None \<Rightarrow>
                   (let toks = split_ws line
                    in py_bind (join_cond toks) (\<lambda>j.
                         if j
                         then py_bind (py_index toks 0) (\<lambda>t0.
                              py_bind (py_index toks 1) (\<lambda>t1.
                                Inr (parse_targets_add T (t0 @ CHR ''_'' # t1))))
                         else if toks \<noteq> []
                         then py_bind (py_index toks 0) (\<lambda>t0. Inr (parse_targets_add T t0))
                         else Inr T))))"

fun parse_lines :: "targets \<Rightarrow> string list \<Rightarrow> py_error + targets" where
  "parse_lines T [] = Inr T"
| "parse_lines T (raw # rest) =
     (case parse_line T raw of Inl e \<Rightarrow> Inl e | Inr T' \<Rightarrow> parse_lines T' rest)"

record filesystem =
  read_lines :: "string \<Rightarrow> string list option"
    \<comment> \<open>\<open>open(path, "r")\<close> and the lines the file object yields; \<open>None\<close> when the
        file is missing or unreadable and \<open>open\<close> raises \<open>OSError\<close>\<close>
  can_write :: "string \<Rightarrow> bool"
    \<comment> \<open>whether \<open>open(path, "w")\<close> succeeds\<close>

definition parse_targets :: "filesystem \<Rightarrow> string \<Rightarrow> py_error + targets" where
  "parse_targets fs list_path =
     (case read_lines fs list_path of
        None \<Rightarrow> Inl OSError
      | Some lines \<Rightarrow> parse_lines ({}, {}) lines)"

section \<open>The record reader: \<open>fasta_records\<close>\<close>

fun fasta_loop :: "string option \<Rightarrow> string list \<Rightarrow> string list \<Rightarrow> (string \<times> string) list" where
  \<comment> \<open>the generator's loop, from the state \<open>header\<close>, \<open>seq_parts\<close>; the result is the
      list of the pairs it yields\<close>
  "fasta_loop header seq_parts [] =
     (case header of None \<Rightarrow> [] | Some h \<Rightarrow> [(h, concat seq_parts)])"
| "fasta_loop header seq_parts (line # rest) =
     (if startswith line (CHR ''>'')
      then (case header of None \<Rightarrow> [] | Some h \<Rightarrow> [(h, concat seq_parts)])
           @ fasta_loop (Some (rstrip_chr (CHR 0x0A) line)) [] rest
      else fasta_loop header (seq_parts @ [strip line]) rest)"

definition fasta_records :: "string list \<Rightarrow> (string \<times> string) list" where
  "fasta_records stream = fasta_loop None [] stream"

section \<open>The accession matcher: \<open>extract_header_accession\<close> and \<open>filter_fasta\<close>\<close>

definition extract_header_accession :: "string \<Rightarrow> py_error + (string option \<times> string option)" where
  "extract_header_accession header =
     (let h = (if startswith header (CHR ''>'') then drop 1 header else header)
      in case ACCESSION_search h of
           Some acc \<Rightarrow> Inr (Some acc, Some (before_dot acc))
         | None \<Rightarrow>
             py_bind (if split_ws h \<noteq> [] then py_index (split_ws h) 0 else Inr []) (\<lambda>tok0.
               let tok1 = strip_chr (CHR ''|'') tok0;
                   tok2 = replace_chr (CHR '' '') (CHR ''_'') tok1
               in case ACCESSION_search tok2 of
                    Some acc \<Rightarrow> Inr (Some acc, Some (before_dot acc))
                  | None \<Rightarrow> Inr (None, None)))"

definition truthy_in :: "string option \<Rightarrow> string set \<Rightarrow> bool" where
  \<comment> \<open>\<open>x and x in S\<close>: \<open>None\<close> and the empty string are false\<close>
  "truthy_in x S = (case x of None \<Rightarrow> False | Some s \<Rightarrow> s \<noteq> [] \<and> s \<in> S)"

definition record_match :: "targets \<Rightarrow> bool \<Rightarrow> string option \<Rightarrow> string option \<Rightarrow> bool" where
  \<comment> \<open>lines 149 to 153: the value of \<open>match\<close>\<close>
  "record_match T ignore_version acc_wv acc_nv =
     (if truthy_in acc_wv (fst T) then True
      else if ignore_version \<and> truthy_in acc_nv (snd T) then True
      else False)"

function wrap60 :: "string \<Rightarrow> string list" where
  \<comment> \<open>the lines printed by \<open>for i in range(0, len(seq), 60): print(seq[i : i + 60])\<close>\<close>
  "wrap60 seq = (if seq = [] then [] else take 60 seq # wrap60 (drop 60 seq))"
  by pat_completeness auto
termination
  by (relation "measure length") auto

declare wrap60.simps [simp del]

fun filter_loop ::
  "targets \<Rightarrow> bool \<Rightarrow> nat \<times> nat \<times> string list \<Rightarrow> (string \<times> string) list
     \<Rightarrow> py_error + (nat \<times> nat \<times> string list)" where
  \<comment> \<open>the loop over the records, from the state \<open>kept\<close>, \<open>total\<close> (here \<open>tot\<close>)
      and the lines printed to \<open>out_fh\<close> so far (\<open>outl\<close>)\<close>
  "filter_loop T ignore_version st [] = Inr st"
| "filter_loop T ignore_version (kept, tot, outl) ((header, seq) # rest) =
     (case extract_header_accession header of
        Inl e \<Rightarrow> Inl e
      | Inr (acc_wv, acc_nv) \<Rightarrow>
          if record_match T ignore_version acc_wv acc_nv
          then filter_loop T ignore_version
                 (kept + 1, tot + 1, outl @ header # wrap60 seq) rest
          else filter_loop T ignore_version (kept, tot + 1, outl) rest)"

definition open_out :: "filesystem \<Rightarrow> string option \<Rightarrow> py_error + unit" where
  \<comment> \<open>\<open>sys.stdout if not out_path or out_path == "-" else open(out_path, "w")\<close>\<close>
  "open_out fs out_path =
     (case out_path of
        None \<Rightarrow> Inr ()
      | Some p \<Rightarrow>
          if p = [] \<or> p = ''-'' then Inr ()
          else if can_write fs p then Inr () else Inl OSError)"

definition filter_fasta ::
  "filesystem \<Rightarrow> string \<Rightarrow> string \<Rightarrow> string option \<Rightarrow> bool
     \<Rightarrow> py_error + (nat \<times> nat \<times> string list)" where
  \<comment> \<open>the result is \<open>(kept, total)\<close> together with the lines printed to \<open>out_fh\<close>\<close>
  "filter_fasta fs fasta_path list_path out_path ignore_version =
     py_bind (parse_targets fs list_path) (\<lambda>T.
     py_bind (open_out fs out_path) (\<lambda>_.
       case read_lines fs fasta_path of
         None \<Rightarrow> Inl OSError
       | Some lines \<Rightarrow> filter_loop T ignore_version (0, 0, []) (fasta_records lines)))"

section \<open>The command: \<open>main\<close>\<close>

function str_nat :: "nat \<Rightarrow> string" where
  \<comment> \<open>the decimal digits of a number, as an f-string prints it\<close>
  "str_nat n =
     (if n < 10 then [char_of (48 + n)]
      else str_nat (n div 10) @ [char_of (48 + n mod 10)])"
  by pat_completeness auto
termination
  by (relation "measure id") auto

declare str_nat.simps [simp del]

record args =
  fasta :: string
  list_file :: string
  out :: string
  ignore_version :: bool

definition main :: "filesystem \<Rightarrow> args \<Rightarrow> string list \<times> (py_error + int)" where
  \<comment> \<open>from the parsed arguments: the lines printed to \<open>sys.stderr\<close>, and the value
      returned or the exception that ends the run\<close>
  "main fs a =
     (case filter_fasta fs (fasta a) (list_file a) (Some (out a)) (ignore_version a) of
        Inl e \<Rightarrow> ([], Inl e)
      | Inr (kept, tot, _) \<Rightarrow>
          ([''[filter_fasta_by_list] Kept '' @ str_nat kept @ '' / '' @ str_nat tot @ '' records''],
           Inr 0))"

section \<open>The specification's notions\<close>

text \<open>
  The definitions of this section follow the words of the specification, not the code; the
  theorems below compare them with the model of the code above.
\<close>

definition strip_gt :: "string \<Rightarrow> string" where
  \<comment> \<open>the header with a leading \<open>>\<close> removed, in the spec's words\<close>
  "strip_gt header = (case header of [] \<Rightarrow> [] | c # r \<Rightarrow> if c = CHR ''>'' then r else c # r)"

definition first_token :: "string \<Rightarrow> string" where
  \<comment> \<open>the first whitespace-delimited token, empty when there is none\<close>
  "first_token h = takeWhile (\<lambda>x. \<not> is_space x) (dropWhile is_space h)"

fun underscored :: "string \<Rightarrow> string" where
  \<comment> \<open>the text with every space replaced by an underscore\<close>
  "underscored [] = []"
| "underscored (c # cs) = (if c = CHR '' '' then CHR ''_'' else c) # underscored cs"

definition cleaned_token :: "string \<Rightarrow> string" where
  \<comment> \<open>the first token, its surrounding \<open>|\<close> stripped and its spaces replaced\<close>
  "cleaned_token h = underscored (strip_chr (CHR ''|'') (first_token h))"

definition accession_pair :: "string option \<Rightarrow> string option \<times> string option" where
  \<comment> \<open>a match together with its part before the first dot, or \<open>(None, None)\<close>\<close>
  "accession_pair r = (case r of None \<Rightarrow> (None, None) | Some acc \<Rightarrow> (Some acc, Some (before_dot acc)))"

definition is_header :: "string \<Rightarrow> bool" where
  \<comment> \<open>a line beginning with \<open>>\<close>\<close>
  "is_header line = startswith line (CHR ''>'')"

fun records_of :: "string list \<Rightarrow> (string \<times> string) list" where
  \<comment> \<open>one record per header line: the header without its trailing newlines, and the
      stripped lines up to the next header, concatenated\<close>
  "records_of [] = []"
| "records_of (line # rest) =
     (if is_header line
      then (rstrip_chr (CHR 0x0A) line,
            concat (map strip (takeWhile (\<lambda>l. \<not> is_header l) rest))) # records_of rest
      else records_of rest)"

definition digits_dot_digits :: "string \<Rightarrow> bool" where
  \<comment> \<open>a token of the form \<open>\d+\.\d+\<close>: digits, a dot, digits, and nothing else\<close>
  "digits_dot_digits t =
     (takeWhile is_digit t \<noteq> [] \<and>
      (case dropWhile is_digit t of
         [] \<Rightarrow> False
       | e # d2 \<Rightarrow> e = CHR ''.'' \<and> d2 \<noteq> [] \<and> list_all is_digit d2))"

definition line_candidate :: "string \<Rightarrow> string option" where
  \<comment> \<open>the candidate accession of a list line, by the three strategies in order\<close>
  "line_candidate line =
     (case ACCESSION_search (underscored line) of
        Some m \<Rightarrow> Some m
      | None \<Rightarrow>
          (case split_ws line of
             [] \<Rightarrow> None
           | [t0] \<Rightarrow> Some t0
           | t0 # t1 # _ \<Rightarrow>
               if isalpha t0 \<and> digits_dot_digits t1 then Some (t0 @ CHR ''_'' # t1)
               else Some t0))"

definition line_normalized :: "string \<Rightarrow> string option" where
  \<comment> \<open>the accepted and normalized candidate that a line of the list file yields, if any\<close>
  "line_normalized raw =
     (if strip raw = [] \<or> startswith (strip raw) (CHR ''#'') then None
      else (case line_candidate (strip raw) of
              None \<Rightarrow> None
            | Some c \<Rightarrow> normalize_acc c))"

definition no_dot :: "string option \<Rightarrow> bool" where
  \<comment> \<open>no candidate, or a candidate without a dot\<close>
  "no_dot r = (case r of None \<Rightarrow> True | Some a \<Rightarrow> CHR ''.'' \<notin> set a)"

definition targets_ok :: "targets \<Rightarrow> bool" where
  \<comment> \<open>every versioned entry has a dot, and its part before the first dot is an
      unversioned entry\<close>
  "targets_ok T = (\<forall>v \<in> fst T. CHR ''.'' \<in> set v \<and> before_dot v \<in> snd T)"

definition demo_fs :: filesystem where
  \<comment> \<open>a small file system for examples: a list file and a FASTA file, nothing writable\<close>
  "demo_fs = \<lparr> read_lines = (\<lambda>p. if p = ''list.txt'' then Some [''NC_001806 Human herpesvirus 1'', ''# NC_001806.1'']
                                    else if p = ''v.fa'' then Some [''>NC_001806.1 x'', ''ACGT'', ''>NC_000001.1'', ''TT'']
                                    else None),
               can_write = (\<lambda>p. False) \<rparr>"

section \<open>Facts about the character classes and the pattern\<close>

lemma not_upper_underscore: "\<not> is_upper (CHR ''_'')"
  by (simp add: is_upper_def)

lemma not_digit_dot: "\<not> is_digit (CHR ''.'')"
  by (simp add: is_digit_def)

lemma upper_not_space: "is_upper c \<Longrightarrow> \<not> is_space c"
  by (auto simp: is_upper_def is_space_def)

lemma digit_not_space: "is_digit c \<Longrightarrow> \<not> is_space c"
  by (auto simp: is_digit_def is_space_def)

lemma upper_plain: "is_upper c \<Longrightarrow> c \<noteq> CHR ''.'' \<and> c \<noteq> CHR '' '' \<and> c \<noteq> CHR ''|''"
  by (auto simp: is_upper_def)

lemma digit_plain: "is_digit c \<Longrightarrow> c \<noteq> CHR ''.'' \<and> c \<noteq> CHR '' '' \<and> c \<noteq> CHR ''|''"
  by (auto simp: is_digit_def)

lemma space_is_space: "is_space (CHR '' '')"
  by (simp add: is_space_def)

lemma ACCESSION_match_canonical:
  assumes "us \<noteq> []" "length us \<le> 3" "list_all is_upper us"
    and "d1 \<noteq> []" "list_all is_digit d1" "d2 \<noteq> []" "list_all is_digit d2"
  shows "ACCESSION_match (us @ CHR ''_'' # d1 @ CHR ''.'' # d2 @ rest)
           = Some (us @ CHR ''_'' # d1 @ CHR ''.'' # d2 @ takeWhile is_digit rest)"
proof -
  have u: "\<And>x. x \<in> set us \<Longrightarrow> is_upper x" using assms(3) by (simp add: list_all_iff)
  have a: "\<And>x. x \<in> set d1 \<Longrightarrow> is_digit x" using assms(5) by (simp add: list_all_iff)
  have b: "\<And>x. x \<in> set d2 \<Longrightarrow> is_digit x" using assms(7) by (simp add: list_all_iff)
  have t1: "takeWhile is_upper (us @ CHR ''_'' # d1 @ CHR ''.'' # d2 @ rest) = us"
    using u by (simp add: not_upper_underscore)
  have r1: "dropWhile is_upper (us @ CHR ''_'' # d1 @ CHR ''.'' # d2 @ rest)
              = CHR ''_'' # d1 @ CHR ''.'' # d2 @ rest"
    using u by (simp add: not_upper_underscore)
  have t2: "takeWhile is_digit (d1 @ CHR ''.'' # d2 @ rest) = d1"
    using a by (simp add: not_digit_dot)
  have r2: "dropWhile is_digit (d1 @ CHR ''.'' # d2 @ rest) = CHR ''.'' # d2 @ rest"
    using a by (simp add: not_digit_dot)
  have t3: "takeWhile is_digit (d2 @ rest) = d2 @ takeWhile is_digit rest"
    using b by simp
  show ?thesis
    unfolding ACCESSION_match_def t1 r1 Let_def
    using assms(1,2,4,6) by (simp add: t2 r2 t3)
qed

lemma ACCESSION_match_shape:
  assumes "ACCESSION_match s = Some m"
  shows "\<exists>us d1 d2 rest. s = m @ rest \<and> m = us @ CHR ''_'' # d1 @ CHR ''.'' # d2 \<and>
           us \<noteq> [] \<and> length us \<le> 3 \<and> list_all is_upper us \<and>
           d1 \<noteq> [] \<and> list_all is_digit d1 \<and> d2 \<noteq> [] \<and> list_all is_digit d2 \<and>
           takeWhile is_digit rest = []"
proof -
  define us where "us = takeWhile is_upper s"
  define r1 where "r1 = dropWhile is_upper s"
  have s1: "s = us @ r1" by (simp add: us_def r1_def)
  from assms have us: "us \<noteq> []" "length us \<le> 3"
    by (auto simp: ACCESSION_match_def Let_def us_def split: if_splits)
  from assms obtain r2 where r1: "r1 = CHR ''_'' # r2"
    by (auto simp: ACCESSION_match_def Let_def r1_def split: if_splits list.splits)
  define d1 where "d1 = takeWhile is_digit r2"
  define r3 where "r3 = dropWhile is_digit r2"
  have s2: "r2 = d1 @ r3" by (simp add: d1_def r3_def)
  from assms r1 have d1: "d1 \<noteq> []"
    by (auto simp: ACCESSION_match_def Let_def r1_def d1_def split: if_splits list.splits)
  from assms r1 obtain r4 where r3: "r3 = CHR ''.'' # r4"
    by (auto simp: ACCESSION_match_def Let_def r1_def r3_def split: if_splits list.splits)
  define d2 where "d2 = takeWhile is_digit r4"
  define rest where "rest = dropWhile is_digit r4"
  have s3: "r4 = d2 @ rest" by (simp add: d2_def rest_def)
  from assms r1 r3 have d2: "d2 \<noteq> []" and m: "m = us @ CHR ''_'' # d1 @ CHR ''.'' # d2"
    by (auto simp: ACCESSION_match_def Let_def r1_def r3_def d2_def d1_def us_def
             split: if_splits list.splits)
  have "s = m @ rest" using s1 r1 s2 r3 s3 m by simp
  moreover have "list_all is_upper us" "list_all is_digit d1" "list_all is_digit d2"
    by (auto simp: us_def d1_def d2_def list_all_iff dest: set_takeWhileD)
  moreover have "takeWhile is_digit rest = []"
    by (cases "dropWhile is_digit r4 = []")
       (auto simp: rest_def takeWhile_eq_Nil_iff hd_dropWhile)
  ultimately show ?thesis using us d1 d2 m by blast
qed

lemma ACCESSION_match_extend:
  assumes "ACCESSION_match s = Some m"
  shows "\<exists>m'. ACCESSION_match (s @ b) = Some m'"
proof -
  from ACCESSION_match_shape [OF assms] obtain us d1 d2 rest where
    s: "s = m @ rest" and m: "m = us @ CHR ''_'' # d1 @ CHR ''.'' # d2" and
    c: "us \<noteq> []" "length us \<le> 3" "list_all is_upper us"
       "d1 \<noteq> []" "list_all is_digit d1" "d2 \<noteq> []" "list_all is_digit d2"
    by blast
  have "s @ b = us @ CHR ''_'' # d1 @ CHR ''.'' # d2 @ (rest @ b)" using s m by simp
  then show ?thesis using ACCESSION_match_canonical [OF c, of "rest @ b"] by simp
qed

lemma ACCESSION_search_Some:
  "ACCESSION_search s = Some m \<Longrightarrow> \<exists>pre t. s = pre @ t \<and> ACCESSION_match t = Some m"
proof (induction s)
  case Nil
  then show ?case by auto
next
  case (Cons c cs)
  show ?case
  proof (cases "ACCESSION_match (c # cs)")
    case None
    with Cons.prems have "ACCESSION_search cs = Some m" by simp
    from Cons.IH [OF this] obtain pre t where "cs = pre @ t" "ACCESSION_match t = Some m"
      by blast
    then have "c # cs = (c # pre) @ t \<and> ACCESSION_match t = Some m" by simp
    then show ?thesis by blast
  next
    case (Some m')
    with Cons.prems have "m' = m" by simp
    with Some have "c # cs = [] @ (c # cs) \<and> ACCESSION_match (c # cs) = Some m" by simp
    then show ?thesis by blast
  qed
qed

lemma ACCESSION_search_suffix:
  "ACCESSION_match t = Some m \<Longrightarrow> \<exists>m'. ACCESSION_search (pre @ t) = Some m'"
proof (induction pre)
  case Nil
  then show ?case by (cases t) auto
next
  case (Cons c pre)
  then show ?case by (cases "ACCESSION_match (c # pre @ t)") auto
qed

lemma ACCESSION_search_substring:
  assumes "ACCESSION_search tok = Some m"
  shows "\<exists>m'. ACCESSION_search (a @ tok @ b) = Some m'"
proof -
  from ACCESSION_search_Some [OF assms] obtain pre t where
    tok: "tok = pre @ t" and t: "ACCESSION_match t = Some m" by blast
  from ACCESSION_match_extend [OF t, of b] obtain m1 where
    "ACCESSION_match (t @ b) = Some m1" by blast
  from ACCESSION_search_suffix [OF this, of "a @ pre"] show ?thesis using tok by simp
qed

lemma ACCESSION_search_canonical:
  assumes "us \<noteq> []" "length us \<le> 3" "list_all is_upper us"
    and "d1 \<noteq> []" "list_all is_digit d1" "d2 \<noteq> []" "list_all is_digit d2"
  shows "ACCESSION_search (us @ CHR ''_'' # d1 @ CHR ''.'' # d2)
           = Some (us @ CHR ''_'' # d1 @ CHR ''.'' # d2)"
proof -
  have m: "ACCESSION_match (us @ CHR ''_'' # d1 @ CHR ''.'' # d2)
           = Some (us @ CHR ''_'' # d1 @ CHR ''.'' # d2)"
    using ACCESSION_match_canonical [OF assms, of "[]"] by simp
  obtain c cs where "us @ CHR ''_'' # d1 @ CHR ''.'' # d2 = c # cs"
    using assms(1) by (cases us) auto
  then show ?thesis using m by (metis ACCESSION_search.simps(2) option.simps(5))
qed

lemma replace_chr_id: "a \<notin> set s \<Longrightarrow> replace_chr a b s = s"
  by (induction s) (auto simp: replace_chr_def)

lemma replace_chr_underscored: "replace_chr (CHR '' '') (CHR ''_'') s = underscored s"
  by (induction s) (simp_all add: replace_chr_def)

lemma split_ws_Nil: "dropWhile is_space h = [] \<Longrightarrow> split_ws h = []"
  by (subst split_ws.simps) simp

lemma split_ws_Cons:
  "dropWhile is_space h \<noteq> [] \<Longrightarrow>
     split_ws h = first_token h # split_ws (dropWhile (\<lambda>x. \<not> is_space x) (dropWhile is_space h))"
  by (subst split_ws.simps) (simp add: first_token_def Let_def)

lemma first_token_Nil: "dropWhile is_space h = [] \<Longrightarrow> first_token h = []"
  unfolding first_token_def by (simp del: dropWhile_eq_Nil_conv)

lemma header_first_token:
  "(if split_ws h \<noteq> [] then py_index (split_ws h) 0 else Inr []) = Inr (first_token h)"
proof (cases "dropWhile is_space h = []")
  case True
  then show ?thesis by (simp add: split_ws_Nil first_token_Nil)
next
  case False
  then show ?thesis by (simp add: split_ws_Cons py_index_def)
qed

lemma strip_gt_eq:
  "(if startswith header (CHR ''>'') then drop 1 header else header) = strip_gt header"
  by (cases header) (auto simp: startswith_def strip_gt_def)

lemma extract_header_accession_eq:
  "extract_header_accession header =
     Inr (case ACCESSION_search (strip_gt header) of
            Some acc \<Rightarrow> (Some acc, Some (before_dot acc))
          | None \<Rightarrow> accession_pair (ACCESSION_search (cleaned_token (strip_gt header))))"
  unfolding extract_header_accession_def strip_gt_eq Let_def header_first_token
  by (simp add: py_bind_def cleaned_token_def accession_pair_def replace_chr_underscored
        split: option.splits)

lemma first_token_no_space: "x \<in> set (first_token h) \<Longrightarrow> \<not> is_space x"
  unfolding first_token_def by (auto dest: set_takeWhileD)

lemma first_token_substring: "\<exists>a b. h = a @ first_token h @ b"
proof -
  have "h = takeWhile is_space h @ first_token h
              @ dropWhile (\<lambda>x. \<not> is_space x) (dropWhile is_space h)"
    by (simp add: first_token_def)
  then show ?thesis by blast
qed

lemma rev_dropWhile_rev_split: "rev (dropWhile P (rev t)) @ rev (takeWhile P (rev t)) = t"
proof -
  have "rev (takeWhile P (rev t) @ dropWhile P (rev t)) = t" by simp
  then show ?thesis by (simp only: rev_append)
qed

lemma strip_chr_substring: "\<exists>a b. s = a @ strip_chr c s @ b"
proof -
  define t where "t = dropWhile (\<lambda>x. x = c) s"
  have 1: "s = takeWhile (\<lambda>x. x = c) s @ t" by (simp add: t_def)
  have 2: "t = strip_chr c s @ rev (takeWhile (\<lambda>x. x = c) (rev t))"
    unfolding strip_chr_def t_def by (simp only: rev_dropWhile_rev_split)
  have "s = takeWhile (\<lambda>x. x = c) s @ strip_chr c s @ rev (takeWhile (\<lambda>x. x = c) (rev t))"
    using 1 2 by simp
  then show ?thesis by blast
qed

lemma cleaned_token_substring: "\<exists>a b. h = a @ cleaned_token h @ b"
proof -
  obtain a b where h: "h = a @ first_token h @ b" using first_token_substring by blast
  obtain a' b' where t: "first_token h = a' @ strip_chr (CHR ''|'') (first_token h) @ b'"
    using strip_chr_substring by blast
  have "CHR '' '' \<notin> set (first_token h)"
    using first_token_no_space space_is_space by blast
  then have "CHR '' '' \<notin> set (strip_chr (CHR ''|'') (first_token h))"
    using t by (metis Un_iff set_append)
  then have c: "cleaned_token h = strip_chr (CHR ''|'') (first_token h)"
    by (simp add: cleaned_token_def replace_chr_underscored [symmetric] replace_chr_id)
  have "h = (a @ a') @ cleaned_token h @ (b' @ b)"
    using h t c by (metis append.assoc)
  then show ?thesis by blast
qed

lemma fallback_never_matches:
  assumes "ACCESSION_search h = None"
  shows "ACCESSION_search (cleaned_token h) = None"
proof (cases "ACCESSION_search (cleaned_token h)")
  case None
  then show ?thesis .
next
  case (Some m)
  obtain a b where h: "h = a @ cleaned_token h @ b" using cleaned_token_substring by blast
  from ACCESSION_search_substring [OF Some, of a b] h assms show ?thesis by simp
qed

lemma before_dot_canonical:
  assumes "list_all is_upper us" "list_all is_digit d1"
  shows "before_dot (us @ CHR ''_'' # d1 @ CHR ''.'' # d2) = us @ CHR ''_'' # d1"
proof -
  have h: "\<forall>x \<in> set (us @ CHR ''_'' # d1). x \<noteq> CHR ''.''"
    using assms upper_plain digit_plain by (auto simp: list_all_iff)
  have "takeWhile (\<lambda>x. x \<noteq> CHR ''.'') ((us @ CHR ''_'' # d1) @ CHR ''.'' # d2)
          = takeWhile (\<lambda>x. x \<noteq> CHR ''.'') (us @ CHR ''_'' # d1)"
    by (rule takeWhile_tail) simp
  also have "\<dots> = us @ CHR ''_'' # d1"
    using h by (simp only: takeWhile_eq_all_conv)
  finally show ?thesis by (simp add: before_dot_def)
qed

lemma ACCESSION_match_nonempty:
  assumes "ACCESSION_match s = Some m"
  shows "m \<noteq> [] \<and> before_dot m \<noteq> []"
proof -
  from ACCESSION_match_shape [OF assms] obtain us d1 d2 where
    m: "m = us @ CHR ''_'' # d1 @ CHR ''.'' # d2" and
    c: "us \<noteq> []" "list_all is_upper us" "list_all is_digit d1"
    by blast
  show ?thesis using before_dot_canonical [OF c(2,3), of d2] m c(1) by simp
qed

lemma ACCESSION_search_nonempty:
  assumes "ACCESSION_search s = Some m"
  shows "m \<noteq> [] \<and> before_dot m \<noteq> []"
  using ACCESSION_search_Some [OF assms] ACCESSION_match_nonempty by blast

lemma extract_header_accession_result:
  "\<exists>acc_wv acc_nv. extract_header_accession header = Inr (acc_wv, acc_nv) \<and>
     acc_wv \<noteq> Some [] \<and> acc_nv \<noteq> Some []"
proof (cases "ACCESSION_search (strip_gt header)")
  case None
  then have "ACCESSION_search (cleaned_token (strip_gt header)) = None"
    by (rule fallback_never_matches)
  with None show ?thesis by (simp add: extract_header_accession_eq accession_pair_def)
next
  case (Some m)
  with ACCESSION_search_nonempty [OF Some] show ?thesis
    by (simp add: extract_header_accession_eq)
qed

lemma truthy_in_iff: "x \<noteq> Some [] \<Longrightarrow> truthy_in x S = (\<exists>a. x = Some a \<and> a \<in> S)"
  by (cases x) (auto simp: truthy_in_def)

lemma fasta_loop_eq:
  "fasta_loop header seq_parts ls =
     (case header of
        None \<Rightarrow> records_of ls
      | Some h \<Rightarrow>
          (h, concat (seq_parts @ map strip (takeWhile (\<lambda>l. \<not> is_header l) ls)))
            # records_of ls)"
proof (induction ls arbitrary: header seq_parts)
  case Nil
  then show ?case by (simp split: option.splits)
next
  case (Cons line rest)
  show ?case
  proof (cases "is_header line")
    case True
    then have "startswith line (CHR ''>'')" by (simp add: is_header_def)
    then show ?thesis using True
      by (simp add: Cons.IH [of "Some (rstrip_chr (CHR 0x0A) line)" "[]"] split: option.splits)
  next
    case False
    then have "\<not> startswith line (CHR ''>'')" by (simp add: is_header_def)
    then show ?thesis using False
      by (simp add: Cons.IH [of header "seq_parts @ [strip line]"] split: option.splits)
  qed
qed

lemma length_records_of: "length (records_of ls) = length (filter is_header ls)"
  by (induction ls) auto

lemma records_of_no_header: "\<forall>l \<in> set ls. \<not> is_header l \<Longrightarrow> records_of ls = []"
  by (induction ls) auto

lemma split_ws_no_space: "t \<in> set (split_ws s) \<Longrightarrow> x \<in> set t \<Longrightarrow> \<not> is_space x"
proof (induction s rule: split_ws.induct)
  case (1 s)
  show ?case
  proof (cases "dropWhile is_space s = []")
    case True
    with "1.prems" show ?thesis by (simp add: split_ws_Nil)
  next
    case False
    from "1.prems"(1) have "t = first_token s \<or>
        t \<in> set (split_ws (dropWhile (\<lambda>x. \<not> is_space x) (dropWhile is_space s)))"
      by (simp add: split_ws_Cons [OF False])
    then show ?thesis
    proof
      assume "t = first_token s"
      with "1.prems"(2) show ?thesis using first_token_no_space by blast
    next
      assume "t \<in> set (split_ws (dropWhile (\<lambda>x. \<not> is_space x) (dropWhile is_space s)))"
      with "1.IH" [OF refl False] "1.prems"(2) show ?thesis by blast
    qed
  qed
qed

lemma newline_is_space: "is_space (CHR 0x0A)"
  by (simp add: is_space_def)

lemma version_fullmatch_token:
  assumes "CHR 0x0A \<notin> set t"
  shows "version_fullmatch t = digits_dot_digits t"
proof (cases "dropWhile is_digit t")
  case Nil
  then show ?thesis
    by (simp add: version_fullmatch_def digits_dot_digits_def Let_def del: dropWhile_eq_Nil_conv)
next
  case (Cons e r2)
  have "t = takeWhile is_digit t @ e # r2" using Cons by (metis takeWhile_dropWhile_id)
  then have "set r2 \<subseteq> set t" by (metis set_subset_Cons set_append Un_upper2 subset_trans)
  then have nl: "CHR 0x0A \<notin> set r2" using assms by blast
  have a: "dropWhile is_digit r2 \<noteq> [CHR 0x0A]"
  proof
    assume "dropWhile is_digit r2 = [CHR 0x0A]"
    then have "CHR 0x0A \<in> set (dropWhile is_digit r2)" by simp
    then show False using nl set_dropWhileD by fastforce
  qed
  show ?thesis
  proof (cases "list_all is_digit r2")
    case True
    then have tk: "takeWhile is_digit r2 = r2" and dk: "dropWhile is_digit r2 = []"
      by (simp_all add: list_all_iff)
    have e1: "(takeWhile is_digit r2 = []) = (r2 = [])" by (simp only: tk)
    show ?thesis
      unfolding version_fullmatch_def digits_dot_digits_def Let_def Cons
      using True by (simp add: e1 dk del: dropWhile_eq_Nil_conv)
  next
    case False
    then have "dropWhile is_digit r2 \<noteq> []" by (simp add: list_all_iff)
    then show ?thesis
      unfolding version_fullmatch_def digits_dot_digits_def Let_def Cons
      using a False by simp
  qed
qed

lemma join_cond_eq:
  "join_cond toks =
     Inr (case toks of
            t0 # t1 # _ \<Rightarrow> isalpha t0 \<and> version_fullmatch t1
          | _ \<Rightarrow> False)"
  by (auto simp: join_cond_def py_bind_def py_index_def split: list.splits)

lemma parse_line_eq:
  "parse_line T raw =
     Inr (if strip raw = [] \<or> startswith (strip raw) (CHR ''#'') then T
          else (case line_candidate (strip raw) of
                  None \<Rightarrow> T
                | Some c \<Rightarrow> parse_targets_add T c))"
proof (cases "strip raw = [] \<or> startswith (strip raw) (CHR ''#'')")
  case True
  then show ?thesis by (auto simp: parse_line_def Let_def)
next
  case False
  show ?thesis
  proof (cases "ACCESSION_search (underscored (strip raw))")
    case (Some m)
    with False show ?thesis by (simp add: parse_line_def Let_def line_candidate_def replace_chr_underscored)
  next
    case None
    have v: "\<And>t0 t1 ts. split_ws (strip raw) = t0 # t1 # ts \<Longrightarrow>
               version_fullmatch t1 = digits_dot_digits t1"
    proof -
      fix t0 t1 ts
      assume s: "split_ws (strip raw) = t0 # t1 # ts"
      have "CHR 0x0A \<notin> set t1"
        using split_ws_no_space [of t1 "strip raw" "CHR 0x0A"] s newline_is_space by auto
      then show "version_fullmatch t1 = digits_dot_digits t1"
        by (rule version_fullmatch_token)
    qed
    show ?thesis
    proof (cases "split_ws (strip raw)")
      case Nil
      with False None show ?thesis
        by (simp add: parse_line_def Let_def line_candidate_def replace_chr_underscored join_cond_eq py_bind_def)
    next
      case (Cons t0 ts)
      note c1 = Cons
      show ?thesis
      proof (cases ts)
        case Nil
        with c1 False None show ?thesis
          by (simp add: parse_line_def Let_def line_candidate_def replace_chr_underscored join_cond_eq py_bind_def
                py_index_def)
      next
        case (Cons t1 ts')
        with c1 have s: "split_ws (strip raw) = t0 # t1 # ts'" by simp
        from v [OF s] s False None show ?thesis
          by (simp add: parse_line_def Let_def line_candidate_def replace_chr_underscored join_cond_eq py_bind_def
                py_index_def)
      qed
    qed
  qed
qed

lemma strip_all_space:
  assumes "list_all is_space s"
  shows "strip s = []"
proof -
  have d: "dropWhile is_space s = []" using assms by (simp add: list_all_iff)
  show ?thesis unfolding strip_def d by simp
qed

lemma strip_keeps_first:
  assumes "\<not> is_space c"
  shows "strip (c # r) = c # rev (dropWhile is_space (rev r))"
  using assms by (simp add: strip_def dropWhile_append3)

lemma strip_comment: "startswith raw (CHR ''#'') \<Longrightarrow> startswith (strip raw) (CHR ''#'')"
proof (cases raw)
  case Nil
  then show "startswith raw (CHR ''#'') \<Longrightarrow> ?thesis" by (simp add: startswith_def)
next
  case (Cons c r)
  assume "startswith raw (CHR ''#'')"
  with Cons have c: "c = CHR ''#''" by (simp add: startswith_def)
  have "\<not> is_space (CHR ''#'')" by (simp add: is_space_def)
  from strip_keeps_first [OF this, of r] c Cons show ?thesis by (simp add: startswith_def)
qed

lemma strip_id:
  assumes "s \<noteq> []" "\<not> is_space (hd s)" "\<not> is_space (last s)"
  shows "strip s = s"
proof -
  obtain c r where s: "s = c # r" using assms(1) by (cases s) auto
  have d1: "dropWhile is_space s = s" using s assms(2) by simp
  have "rev s \<noteq> []" using assms(1) by simp
  then obtain d q where q: "rev s = d # q" by (cases "rev s") auto
  then have "d = last s" using assms(1) by (metis hd_rev list.sel(1))
  then have "\<not> is_space d" using assms(3) by simp
  then have "dropWhile is_space (d # q) = d # q" by simp
  then have d2: "dropWhile is_space (rev s) = rev s" by (simp only: q)
  show ?thesis unfolding strip_def d1 d2 by simp
qed

lemma canonical_chars:
  assumes "list_all is_upper us" "list_all is_digit d1" "list_all is_digit d2"
    and "x \<in> set (us @ CHR ''_'' # d1 @ CHR ''.'' # d2)"
  shows "\<not> is_space x \<and> x \<noteq> CHR '' '' \<and> x \<noteq> CHR ''|''"
proof -
  have "is_upper x \<or> is_digit x \<or> x = CHR ''_'' \<or> x = CHR ''.''"
    using assms by (auto simp: list_all_iff)
  moreover have "\<not> is_space (CHR ''_'')" "\<not> is_space (CHR ''.'')"
    by (simp_all add: is_space_def)
  ultimately show ?thesis
    using upper_not_space digit_not_space upper_plain digit_plain by auto
qed

lemma normalize_acc_canonical:
  assumes "us \<noteq> []" "length us \<le> 3" "list_all is_upper us"
    and "d1 \<noteq> []" "list_all is_digit d1" "d2 \<noteq> []" "list_all is_digit d2"
  shows "normalize_acc (us @ CHR ''_'' # d1 @ CHR ''.'' # d2)
           = Some (us @ CHR ''_'' # d1 @ CHR ''.'' # d2)"
proof -
  define s where "s = us @ CHR ''_'' # d1 @ CHR ''.'' # d2"
  have ch: "\<And>x. x \<in> set s \<Longrightarrow> \<not> is_space x \<and> x \<noteq> CHR '' '' \<and> x \<noteq> CHR ''|''"
    unfolding s_def using canonical_chars [OF assms(3,5,7)] by blast
  have ne: "s \<noteq> []" using assms(1) by (simp add: s_def)
  have st: "strip s = s"
    using strip_id [OF ne] ch ne hd_in_set last_in_set by blast
  have rp: "replace_chr (CHR '' '') (CHR ''_'') s = s"
    using ch by (intro replace_chr_id) blast
  have nb: "CHR ''|'' \<notin> set s" using ch by blast
  have se: "ACCESSION_search s = Some s"
    unfolding s_def by (rule ACCESSION_search_canonical [OF assms])
  have "normalize_acc s = Some s"
    unfolding normalize_acc_def st Let_def rp using ne nb se by simp
  then show ?thesis by (simp add: s_def)
qed

lemma parse_line_normalized:
  "parse_line T raw =
     Inr (case line_normalized raw of None \<Rightarrow> T | Some a \<Rightarrow> insert_acc T a)"
  by (simp add: parse_line_eq line_normalized_def parse_targets_add_def split: option.splits)

lemma parse_lines_total: "\<exists>T'. parse_lines T ls = Inr T'"
  by (induction ls arbitrary: T) (simp_all add: parse_line_normalized)

lemma dotted_split:
  assumes "CHR ''.'' \<in> set v"
  shows "\<exists>ver. v = before_dot v @ CHR ''.'' # ver"
proof -
  have ne: "dropWhile (\<lambda>x. x \<noteq> CHR ''.'') v \<noteq> []" using assms by auto
  then obtain e r where d: "dropWhile (\<lambda>x. x \<noteq> CHR ''.'') v = e # r"
    by (cases "dropWhile (\<lambda>x. x \<noteq> CHR ''.'') v") auto
  have "\<not> (hd (dropWhile (\<lambda>x. x \<noteq> CHR ''.'') v) \<noteq> CHR ''.'')"
    using ne by (rule hd_dropWhile)
  then have e: "e = CHR ''.''" using d by simp
  have "v = takeWhile (\<lambda>x. x \<noteq> CHR ''.'') v @ dropWhile (\<lambda>x. x \<noteq> CHR ''.'') v" by simp
  then have "v = before_dot v @ CHR ''.'' # r" unfolding before_dot_def d e .
  then show ?thesis by blast
qed

lemma insert_acc_ok: "targets_ok T \<Longrightarrow> targets_ok (insert_acc T a)"
  by (auto simp: targets_ok_def insert_acc_def)

lemma parse_line_ok:
  assumes "targets_ok T" "parse_line T raw = Inr T'"
  shows "targets_ok T'"
  using assms insert_acc_ok [OF assms(1)]
  by (auto simp: parse_line_normalized split: option.splits)

lemma parse_lines_ok:
  "targets_ok T \<Longrightarrow> parse_lines T ls = Inr T' \<Longrightarrow> targets_ok T'"
proof (induction ls arbitrary: T)
  case Nil
  then show ?case by simp
next
  case (Cons raw rest)
  obtain T1 where t1: "parse_line T raw = Inr T1" by (simp add: parse_line_normalized)
  from parse_line_ok [OF Cons.prems(1) t1] have "targets_ok T1" .
  moreover from Cons.prems(2) t1 have "parse_lines T1 rest = Inr T'" by simp
  ultimately show ?case by (rule Cons.IH)
qed

lemma parse_lines_no_dot:
  "list_all (\<lambda>raw. no_dot (line_normalized raw)) ls \<Longrightarrow>
     \<exists>N. parse_lines (W, N0) ls = Inr (W, N)"
proof (induction ls arbitrary: N0)
  case Nil
  then show ?case by simp
next
  case (Cons raw rest)
  from Cons.prems have nd: "no_dot (line_normalized raw)"
    and r: "list_all (\<lambda>raw. no_dot (line_normalized raw)) rest" by simp_all
  from nd obtain N1 where "parse_line (W, N0) raw = Inr (W, N1)"
    by (auto simp: parse_line_normalized no_dot_def insert_acc_def split: option.splits)
  moreover from Cons.IH [OF r, of N1] obtain N where "parse_lines (W, N1) rest = Inr (W, N)"
    by blast
  ultimately show ?case by simp
qed

lemma record_match_no_versioned: "\<not> record_match ({}, N) False acc_wv acc_nv"
  by (simp add: record_match_def truthy_in_def split: option.splits)

lemma filter_loop_no_match:
  assumes "\<And>acc_wv acc_nv. \<not> record_match T ign acc_wv acc_nv"
  shows "filter_loop T ign (kept, tot, outl) recs = Inr (kept, tot + length recs, outl)"
proof (induction recs arbitrary: tot)
  case Nil
  then show ?case by simp
next
  case (Cons r rest)
  obtain header seq where r: "r = (header, seq)" by (cases r)
  obtain acc_wv acc_nv where e: "extract_header_accession header = Inr (acc_wv, acc_nv)"
    using extract_header_accession_result by blast
  show ?case unfolding r using e assms Cons.IH [of "tot + 1"] by simp
qed

lemma filter_loop_total: "\<exists>res. filter_loop T ign st recs = Inr res"
proof (induction recs arbitrary: st)
  case Nil
  show ?case by (rule exI [of _ st]) simp
next
  case (Cons r rest)
  obtain header seq where r: "r = (header, seq)" by (cases r)
  obtain kept tot outl where st: "st = (kept, tot, outl)" using prod_cases3 by blast
  obtain acc_wv acc_nv where e: "extract_header_accession header = Inr (acc_wv, acc_nv)"
    using extract_header_accession_result by blast
  show ?case unfolding r st using e Cons.IH by simp
qed

lemma parse_targets_total:
  "read_lines fs list_path = Some ls \<Longrightarrow> \<exists>T. parse_targets fs list_path = Inr T"
  using parse_lines_total [of "({}, {})" ls] by (simp add: parse_targets_def)

lemma filter_fasta_io_failure:
  assumes "read_lines fs list_path = None \<or> read_lines fs fasta_path = None \<or>
           (out_path \<noteq> [] \<and> out_path \<noteq> ''-'' \<and> \<not> can_write fs out_path)"
  shows "filter_fasta fs fasta_path list_path (Some out_path) ign = Inl OSError"
proof (cases "read_lines fs list_path")
  case None
  then show ?thesis by (simp add: filter_fasta_def parse_targets_def py_bind_def)
next
  case (Some ls)
  from parse_targets_total [OF Some] obtain T where
    p: "parse_targets fs list_path = Inr T" by blast
  show ?thesis
  proof (cases "out_path \<noteq> [] \<and> out_path \<noteq> ''-'' \<and> \<not> can_write fs out_path")
    case True
    then show ?thesis using p by (simp add: filter_fasta_def py_bind_def open_out_def)
  next
    case False
    with assms Some have "read_lines fs fasta_path = None" by auto
    then show ?thesis using p
      by (simp add: filter_fasta_def py_bind_def open_out_def split: sum.splits)
  qed
qed

lemma ACCESSION_match_no_capital: "\<not> is_upper c \<Longrightarrow> ACCESSION_match (c # cs) = None"
  by (simp add: ACCESSION_match_def)

lemma ACCESSION_search_skip:
  "list_all (\<lambda>c. \<not> is_upper c) pre \<Longrightarrow> ACCESSION_search (pre @ t) = ACCESSION_search t"
  by (induction pre) (simp_all add: ACCESSION_match_no_capital)

lemma ACCESSION_search_at_start:
  assumes "ACCESSION_match t = Some m"
  shows "ACCESSION_search t = Some m"
proof (cases t)
  case Nil
  with assms show ?thesis by simp
next
  case (Cons c cs)
  with assms show ?thesis by simp
qed

lemma ACCESSION_search_leftmost:
  assumes "list_all (\<lambda>c. \<not> is_upper c) pre"
    and "us \<noteq> []" "length us \<le> 3" "list_all is_upper us"
    and "d1 \<noteq> []" "list_all is_digit d1" "d2 \<noteq> []" "list_all is_digit d2"
  shows "ACCESSION_search (pre @ us @ CHR ''_'' # d1 @ CHR ''.'' # d2 @ post)
           = Some (us @ CHR ''_'' # d1 @ CHR ''.'' # d2 @ takeWhile is_digit post)"
  unfolding ACCESSION_search_skip [OF assms(1)]
  by (rule ACCESSION_search_at_start) (rule ACCESSION_match_canonical [OF assms(2-8)])

lemma before_dot_canonical_more:
  assumes "list_all is_upper us" "list_all is_digit d1"
  shows "before_dot (us @ CHR ''_'' # d1 @ CHR ''.'' # d2 @ rest) = us @ CHR ''_'' # d1"
  using before_dot_canonical [OF assms, of "d2 @ rest"] by simp

lemma ACCESSION_search_sound:
  assumes "ACCESSION_search s = Some m"
  shows "\<exists>pre post us d1 d2.
           s = pre @ m @ post \<and> m = us @ CHR ''_'' # d1 @ CHR ''.'' # d2 \<and>
           us \<noteq> [] \<and> length us \<le> 3 \<and> list_all is_upper us \<and>
           d1 \<noteq> [] \<and> list_all is_digit d1 \<and> d2 \<noteq> [] \<and> list_all is_digit d2 \<and>
           before_dot m = us @ CHR ''_'' # d1"
proof -
  from ACCESSION_search_Some [OF assms] obtain pre t where
    s: "s = pre @ t" and t: "ACCESSION_match t = Some m" by blast
  from ACCESSION_match_shape [OF t] obtain us d1 d2 post where
    tm: "t = m @ post" and m: "m = us @ CHR ''_'' # d1 @ CHR ''.'' # d2" and
    c: "us \<noteq> []" "length us \<le> 3" "list_all is_upper us"
       "d1 \<noteq> []" "list_all is_digit d1" "d2 \<noteq> []" "list_all is_digit d2"
    by blast
  have b: "before_dot m = us @ CHR ''_'' # d1"
    unfolding m by (rule before_dot_canonical [OF c(3,5)])
  have "s = pre @ m @ post" using s tm by simp
  with m c b show ?thesis by blast
qed

section \<open>The claims\<close>

text \<open>
  C3. For every header, \<open>extract_header_accession\<close> removes a leading \<open>>\<close> and searches
  the accession pattern in what remains, returning the match and its part before the first
  dot; when that search fails it takes the first whitespace-delimited token, strips the
  surrounding \<open>|\<close>, replaces spaces by underscores and searches the pattern in that token,
  returning a pair of the same shape; when neither search matches it returns
  \<open>(None, None)\<close>. No header raises an exception. What is returned is an occurrence of
  the pattern in the header (one to three capitals, an underscore, digits, a dot, digits)
  with the part up to the dot as its second component; and a header in which an accession
  stands after text without capital letters yields that accession, with all the digits
  that follow its dot.
\<close>

theorem extract_header_accession_two_paths:
  "extract_header_accession header =
     Inr (case ACCESSION_search (strip_gt header) of
            Some acc \<Rightarrow> (Some acc, Some (before_dot acc))
          | None \<Rightarrow>
              (case ACCESSION_search
                      (underscored (strip_chr (CHR ''|'') (first_token (strip_gt header)))) of
                 Some acc \<Rightarrow> (Some acc, Some (before_dot acc))
               | None \<Rightarrow> (None, None))) \<and>
   (extract_header_accession header = Inr (Some m, nv) \<longrightarrow>
      (\<exists>pre post us d1 d2.
          strip_gt header = pre @ m @ post \<and> m = us @ CHR ''_'' # d1 @ CHR ''.'' # d2 \<and>
          us \<noteq> [] \<and> length us \<le> 3 \<and> list_all is_upper us \<and>
          d1 \<noteq> [] \<and> list_all is_digit d1 \<and> d2 \<noteq> [] \<and> list_all is_digit d2 \<and>
          nv = Some (us @ CHR ''_'' # d1))) \<and>
   (strip_gt header = p @ u @ CHR ''_'' # e1 @ CHR ''.'' # e2 @ q \<and>
    list_all (\<lambda>c. \<not> is_upper c) p \<and>
    u \<noteq> [] \<and> length u \<le> 3 \<and> list_all is_upper u \<and>
    e1 \<noteq> [] \<and> list_all is_digit e1 \<and> e2 \<noteq> [] \<and> list_all is_digit e2 \<longrightarrow>
      extract_header_accession header =
        Inr (Some (u @ CHR ''_'' # e1 @ CHR ''.'' # e2 @ takeWhile is_digit q),
             Some (u @ CHR ''_'' # e1)))"
proof -
  have 1: "extract_header_accession header =
     Inr (case ACCESSION_search (strip_gt header) of
            Some acc \<Rightarrow> (Some acc, Some (before_dot acc))
          | None \<Rightarrow>
              (case ACCESSION_search
                      (underscored (strip_chr (CHR ''|'') (first_token (strip_gt header)))) of
                 Some acc \<Rightarrow> (Some acc, Some (before_dot acc))
               | None \<Rightarrow> (None, None)))"
    by (simp add: extract_header_accession_eq accession_pair_def cleaned_token_def
           split: option.splits)
  have 2: "extract_header_accession header = Inr (Some m, nv) \<longrightarrow>
      (\<exists>pre post us d1 d2.
          strip_gt header = pre @ m @ post \<and> m = us @ CHR ''_'' # d1 @ CHR ''.'' # d2 \<and>
          us \<noteq> [] \<and> length us \<le> 3 \<and> list_all is_upper us \<and>
          d1 \<noteq> [] \<and> list_all is_digit d1 \<and> d2 \<noteq> [] \<and> list_all is_digit d2 \<and>
          nv = Some (us @ CHR ''_'' # d1))"
  proof
    assume a: "extract_header_accession header = Inr (Some m, nv)"
    show "\<exists>pre post us d1 d2.
          strip_gt header = pre @ m @ post \<and> m = us @ CHR ''_'' # d1 @ CHR ''.'' # d2 \<and>
          us \<noteq> [] \<and> length us \<le> 3 \<and> list_all is_upper us \<and>
          d1 \<noteq> [] \<and> list_all is_digit d1 \<and> d2 \<noteq> [] \<and> list_all is_digit d2 \<and>
          nv = Some (us @ CHR ''_'' # d1)"
    proof (cases "ACCESSION_search (strip_gt header)")
      case None
      then have "ACCESSION_search (cleaned_token (strip_gt header)) = None"
        by (rule fallback_never_matches)
      with None a show ?thesis by (simp add: extract_header_accession_eq accession_pair_def)
    next
      case (Some m')
      with a have mm: "m' = m" and nv: "nv = Some (before_dot m)"
        by (auto simp: extract_header_accession_eq)
      from ACCESSION_search_sound [OF Some [unfolded mm]] nv show ?thesis by metis
    qed
  qed
  have 3: "strip_gt header = p @ u @ CHR ''_'' # e1 @ CHR ''.'' # e2 @ q \<and>
    list_all (\<lambda>c. \<not> is_upper c) p \<and>
    u \<noteq> [] \<and> length u \<le> 3 \<and> list_all is_upper u \<and>
    e1 \<noteq> [] \<and> list_all is_digit e1 \<and> e2 \<noteq> [] \<and> list_all is_digit e2 \<longrightarrow>
      extract_header_accession header =
        Inr (Some (u @ CHR ''_'' # e1 @ CHR ''.'' # e2 @ takeWhile is_digit q),
             Some (u @ CHR ''_'' # e1))"
  proof
    assume a: "strip_gt header = p @ u @ CHR ''_'' # e1 @ CHR ''.'' # e2 @ q \<and>
      list_all (\<lambda>c. \<not> is_upper c) p \<and>
      u \<noteq> [] \<and> length u \<le> 3 \<and> list_all is_upper u \<and>
      e1 \<noteq> [] \<and> list_all is_digit e1 \<and> e2 \<noteq> [] \<and> list_all is_digit e2"
    then have s: "ACCESSION_search (strip_gt header)
        = Some (u @ CHR ''_'' # e1 @ CHR ''.'' # e2 @ takeWhile is_digit q)"
      using ACCESSION_search_leftmost [of p u e1 e2 q] by simp
    have b: "before_dot (u @ CHR ''_'' # e1 @ CHR ''.'' # e2 @ takeWhile is_digit q)
        = u @ CHR ''_'' # e1"
      using a before_dot_canonical_more by blast
    show "extract_header_accession header =
        Inr (Some (u @ CHR ''_'' # e1 @ CHR ''.'' # e2 @ takeWhile is_digit q),
             Some (u @ CHR ''_'' # e1))"
      by (simp add: extract_header_accession_eq s b)
  qed
  from 1 2 3 show ?thesis by (intro conjI)
qed

theorem extract_header_accession_two_paths_witness:
  "extract_header_accession ''>ref|NC_001806.1| Human herpesvirus 1''
     = Inr (Some ''NC_001806.1'', Some ''NC_001806'') \<and>
   extract_header_accession ''gi|9629378 AB_12.345x''
     = Inr (Some ''AB_12.345'', Some ''AB_12'')"
proof -
  have h1: "strip_gt ''>ref|NC_001806.1| Human herpesvirus 1''
              = ''ref|'' @ ''NC'' @ CHR ''_'' # ''001806'' @ CHR ''.'' # ''1'' @ ''| Human herpesvirus 1'' \<and>
            list_all (\<lambda>c. \<not> is_upper c) ''ref|'' \<and>
            ''NC'' \<noteq> [] \<and> length ''NC'' \<le> 3 \<and> list_all is_upper ''NC'' \<and>
            ''001806'' \<noteq> [] \<and> list_all is_digit ''001806'' \<and> ''1'' \<noteq> [] \<and> list_all is_digit ''1''"
    by (simp add: strip_gt_def is_upper_def is_digit_def)
  have h2: "strip_gt ''gi|9629378 AB_12.345x''
              = ''gi|9629378 '' @ ''AB'' @ CHR ''_'' # ''12'' @ CHR ''.'' # ''3'' @ ''45x'' \<and>
            list_all (\<lambda>c. \<not> is_upper c) ''gi|9629378 '' \<and>
            ''AB'' \<noteq> [] \<and> length ''AB'' \<le> 3 \<and> list_all is_upper ''AB'' \<and>
            ''12'' \<noteq> [] \<and> list_all is_digit ''12'' \<and> ''3'' \<noteq> [] \<and> list_all is_digit ''3''"
    by (simp add: strip_gt_def is_upper_def is_digit_def)
  have t1: "takeWhile is_digit ''| Human herpesvirus 1'' = []" by (simp add: is_digit_def)
  have t2: "takeWhile is_digit ''45x'' = ''45''" by (simp add: is_digit_def)
  have w1: "extract_header_accession ''>ref|NC_001806.1| Human herpesvirus 1''
     = Inr (Some ''NC_001806.1'', Some ''NC_001806'')"
    using extract_header_accession_two_paths
      [THEN conjunct2, THEN conjunct2, rule_format, OF h1] t1 by simp
  have w2: "extract_header_accession ''gi|9629378 AB_12.345x''
     = Inr (Some ''AB_12.345'', Some ''AB_12'')"
    using extract_header_accession_two_paths
      [THEN conjunct2, THEN conjunct2, rule_format, OF h2] t2 by simp
  from w1 w2 show ?thesis by (intro conjI)
qed

text \<open>
  C10. The fallback branch of \<open>extract_header_accession\<close> never succeeds: the cleaned
  first token is a contiguous part of the header without its leading \<open>>\<close>, so the whole
  function is one search of the pattern over that text, and whenever the first search
  fails, the search in the token fails too and the result is \<open>(None, None)\<close>.
\<close>

theorem extract_header_accession_single_search:
  "extract_header_accession header = Inr (accession_pair (ACCESSION_search (strip_gt header))) \<and>
   (\<exists>a b. strip_gt header = a @ cleaned_token (strip_gt header) @ b) \<and>
   (ACCESSION_search (strip_gt header) = None \<longrightarrow>
      ACCESSION_search (cleaned_token (strip_gt header)) = None \<and>
      extract_header_accession header = Inr (None, None))"
  using fallback_never_matches [of "strip_gt header"]
        cleaned_token_substring [of "strip_gt header"]
  by (auto simp: extract_header_accession_eq accession_pair_def split: option.splits)

theorem extract_header_accession_single_search_witness:
  "ACCESSION_search (strip_gt ''>|foo| Human herpesvirus 1'') = None \<and>
   ACCESSION_search (cleaned_token (strip_gt ''>|foo| Human herpesvirus 1'')) = None \<and>
   extract_header_accession ''>|foo| Human herpesvirus 1'' = Inr (None, None)"
proof -
  have h: "ACCESSION_search (strip_gt ''>|foo| Human herpesvirus 1'') = None"
    by code_simp
  show ?thesis
    using h extract_header_accession_single_search [of "''>|foo| Human herpesvirus 1''"]
    by (simp add: accession_pair_def)
qed

text \<open>
  C1. For every record and every pair of target sets, the record is kept (counted in
  \<open>kept\<close> and written to the output, header first and the sequence in lines of 60) if and
  only if the versioned accession extracted from its header is not \<open>None\<close> and belongs
  to the versioned targets, or \<open>ignore_version\<close> is set and the extracted unversioned
  accession is not \<open>None\<close> and belongs to the unversioned targets; otherwise it is only
  counted in the total. This is the result of the loop on one record, and the state with
  which the loop goes on when more records follow.
\<close>

theorem filter_fasta_keeps_iff:
  "\<exists>acc_wv acc_nv.
     extract_header_accession header = Inr (acc_wv, acc_nv) \<and>
     record_match T ign acc_wv acc_nv =
       ((\<exists>a. acc_wv = Some a \<and> a \<in> fst T) \<or> (ign \<and> (\<exists>b. acc_nv = Some b \<and> b \<in> snd T))) \<and>
     filter_loop T ign (kept, tot, outl) [(header, seq)] =
       Inr (if (\<exists>a. acc_wv = Some a \<and> a \<in> fst T) \<or> (ign \<and> (\<exists>b. acc_nv = Some b \<and> b \<in> snd T))
            then (kept + 1, tot + 1, outl @ header # wrap60 seq)
            else (kept, tot + 1, outl)) \<and>
     filter_loop T ign (kept, tot, outl) ((header, seq) # rest) =
       filter_loop T ign
         (if (\<exists>a. acc_wv = Some a \<and> a \<in> fst T) \<or> (ign \<and> (\<exists>b. acc_nv = Some b \<and> b \<in> snd T))
          then (kept + 1, tot + 1, outl @ header # wrap60 seq)
          else (kept, tot + 1, outl)) rest"
proof -
  obtain acc_wv acc_nv where
    e: "extract_header_accession header = Inr (acc_wv, acc_nv)" and
    n: "acc_wv \<noteq> Some []" "acc_nv \<noteq> Some []"
    using extract_header_accession_result by blast
  define keep where
    "keep = ((\<exists>a. acc_wv = Some a \<and> a \<in> fst T) \<or> (ign \<and> (\<exists>b. acc_nv = Some b \<and> b \<in> snd T)))"
  have m: "record_match T ign acc_wv acc_nv = keep"
    unfolding record_match_def truthy_in_iff [OF n(1)] truthy_in_iff [OF n(2)] keep_def
    by simp
  have l: "filter_loop T ign (kept, tot, outl) ((header, seq) # rest) =
       filter_loop T ign
         (if keep then (kept + 1, tot + 1, outl @ header # wrap60 seq)
          else (kept, tot + 1, outl)) rest"
    using e m by (cases keep) simp_all
  have s: "filter_loop T ign (kept, tot, outl) [(header, seq)] =
       Inr (if keep then (kept + 1, tot + 1, outl @ header # wrap60 seq)
            else (kept, tot + 1, outl))"
    using e m by (cases keep) simp_all
  show ?thesis
    apply (rule exI [of _ acc_wv])
    apply (rule exI [of _ acc_nv])
    using e m s l unfolding keep_def
    apply (intro conjI)
       apply assumption+
    done
qed

theorem filter_fasta_keeps_iff_witness:
  "filter_loop ({''NC_001806.1''}, {''NC_000001''}) True (0, 0, [])
       [(''>NC_001806.1 foo'', ''ACGT'')]
     = Inr (1, 1, [''>NC_001806.1 foo'', ''ACGT'']) \<and>
   filter_loop ({''NC_001806.1''}, {''NC_000001''}) True (3, 5, [''x''])
       [(''>NC_000001.7 bar'', ''GG'')]
     = Inr (4, 6, [''x'', ''>NC_000001.7 bar'', ''GG'']) \<and>
   filter_loop ({''NC_001806.1''}, {''NC_000001''}) False (3, 5, [''x''])
       [(''>NC_000001.7 bar'', ''GG'')]
     = Inr (3, 6, [''x''])"
proof -
  have e1: "extract_header_accession ''>NC_001806.1 foo''
              = Inr (Some ''NC_001806.1'', Some ''NC_001806'')" by code_simp
  have e2: "extract_header_accession ''>NC_000001.7 bar''
              = Inr (Some ''NC_000001.7'', Some ''NC_000001'')" by code_simp
  have v1: "wrap60 ''ACGT'' = [''ACGT'']" by code_simp
  have v2: "wrap60 ''GG'' = [''GG'']" by code_simp
  have w1: "filter_loop ({''NC_001806.1''}, {''NC_000001''}) True (0, 0, [])
       [(''>NC_001806.1 foo'', ''ACGT'')]
     = Inr (1, 1, [''>NC_001806.1 foo'', ''ACGT''])"
    using filter_fasta_keeps_iff
      [of "''>NC_001806.1 foo''" "({''NC_001806.1''}, {''NC_000001''})" True 0 0 "[]" "''ACGT''" "[]"]
    by (auto simp: e1 v1)
  have w2: "filter_loop ({''NC_001806.1''}, {''NC_000001''}) True (3, 5, [''x''])
       [(''>NC_000001.7 bar'', ''GG'')]
     = Inr (4, 6, [''x'', ''>NC_000001.7 bar'', ''GG''])"
    using filter_fasta_keeps_iff
      [of "''>NC_000001.7 bar''" "({''NC_001806.1''}, {''NC_000001''})" True 3 5 "[''x'']" "''GG''" "[]"]
    by (auto simp: e2 v2)
  have w3: "filter_loop ({''NC_001806.1''}, {''NC_000001''}) False (3, 5, [''x''])
       [(''>NC_000001.7 bar'', ''GG'')]
     = Inr (3, 6, [''x''])"
    using filter_fasta_keeps_iff
      [of "''>NC_000001.7 bar''" "({''NC_001806.1''}, {''NC_000001''})" False 3 5 "[''x'']" "''GG''" "[]"]
    by (auto simp: e2 v2)
  from w1 w2 w3 show ?thesis by (intro conjI)
qed

text \<open>
  C5. For every finite stream of lines, \<open>fasta_records\<close> yields one pair per line that
  begins with \<open>>\<close>: the header, its trailing newline stripped, and the concatenation,
  with no separator, of the whitespace-stripped lines that follow it up to the next header
  or the end of the stream (lines before the first header belong to no record). The last
  record is yielded at the end of the stream, and a stream that is empty or has no line
  beginning with \<open>>\<close> yields no record.
\<close>

theorem fasta_records_one_per_header:
  "fasta_records stream = records_of stream \<and>
   length (fasta_records stream) = length (filter is_header stream) \<and>
   fasta_records [] = [] \<and>
   ((\<forall>l \<in> set stream. \<not> is_header l) \<longrightarrow> fasta_records stream = [])"
  by (simp add: fasta_records_def fasta_loop_eq length_records_of records_of_no_header)

theorem fasta_records_one_per_header_witness:
  "\<not> is_header ''ACGT'' \<and> \<not> is_header ''TT'' \<and> fasta_records [''ACGT'', ''TT''] = [] \<and>
   fasta_records [''ignored'', ''>a b'' @ [CHR 0x0A], '' AC '' @ [CHR 0x0A], ''GT'', ''>c'', ''>d'', ''T'']
     = [(''>a b'', ''ACGT''), (''>c'', ''''), (''>d'', ''T'')]"
proof -
  have h: "\<forall>l \<in> set [''ACGT'', ''TT'']. \<not> is_header l"
    by (simp add: is_header_def startswith_def)
  have r: "records_of [''ignored'', ''>a b'' @ [CHR 0x0A], '' AC '' @ [CHR 0x0A], ''GT'', ''>c'', ''>d'', ''T'']
     = [(''>a b'', ''ACGT''), (''>c'', ''''), (''>d'', ''T'')]"
    by (simp add: is_header_def startswith_def rstrip_chr_def strip_def is_space_def)
  show ?thesis
    using h r fasta_records_one_per_header [of "[''ACGT'', ''TT'']"]
      fasta_records_one_per_header [of "[''ignored'', ''>a b'' @ [CHR 0x0A], '' AC '' @ [CHR 0x0A], ''GT'', ''>c'', ''>d'', ''T'']"]
    by simp
qed

text \<open>
  C2. For every line of the list file, the loop body of \<open>parse_targets\<close> raises no
  exception. A line that is blank or begins with \<open>#\<close> (the test is made on the line
  stripped of surrounding whitespace) leaves the target sets unchanged. Any other line is
  handled by three strategies in order, the first that applies deciding the candidate
  handed to \<open>_add\<close>: (1) the match of the accession pattern in the line with every space
  replaced by an underscore; (2) else, when the line has at least two whitespace tokens,
  the first alphabetic and the second of the form \<open>\d+\.\d+\<close>, the two joined by an
  underscore; (3) else the first token, if there is one. The replacement of spaces is the
  specification's own (\<open>underscored\<close>), compared here with the code's \<open>replace\<close>.
\<close>

theorem parse_line_three_strategies:
  "parse_line T raw =
     Inr (if strip raw = [] \<or> startswith (strip raw) (CHR ''#'') then T
          else (case line_candidate (strip raw) of
                  None \<Rightarrow> T
                | Some c \<Rightarrow> parse_targets_add T c)) \<and>
   (list_all is_space raw \<longrightarrow> parse_line T raw = Inr T) \<and>
   (startswith raw (CHR ''#'') \<longrightarrow> parse_line T raw = Inr T)"
  using strip_all_space [of raw] strip_comment [of raw]
  by (simp add: parse_line_eq)

theorem parse_line_three_strategies_witness:
  "list_all is_space ''  '' \<and> parse_line ({}, {}) ''  '' = Inr ({}, {}) \<and>
   startswith ''# NC_001806.1'' (CHR ''#'') \<and> parse_line ({}, {}) ''# NC_001806.1'' = Inr ({}, {}) \<and>
   parse_line ({}, {}) ''NC 001806.1 Human herpesvirus 1, complete genome''
     = Inr ({''NC_001806.1''}, {''NC_001806''}) \<and>
   parse_line ({}, {}) ''abc 12.5 x'' = Inr ({''abc_12.5''}, {''abc_12''}) \<and>
   parse_line ({}, {}) ''foo bar'' = Inr ({}, {''foo''}) \<and>
   underscored ''xx NC 001806.1 y'' = ''xx_NC_001806.1_y'' \<and>
   parse_line ({}, {}) ''xx NC 001806.1 y'' = Inr ({''NC_001806.1''}, {''NC_001806''})"
proof -
  have h1: "list_all is_space ''  ''" by (simp add: is_space_def)
  have h2: "startswith ''# NC_001806.1'' (CHR ''#'')" by (simp add: startswith_def)
  have s1: "strip ''NC 001806.1 Human herpesvirus 1, complete genome''
              = ''NC 001806.1 Human herpesvirus 1, complete genome''" by code_simp
  have c1: "line_candidate ''NC 001806.1 Human herpesvirus 1, complete genome'' = Some ''NC_001806.1''"
    by code_simp
  have a1: "parse_targets_add ({}, {}) ''NC_001806.1'' = ({''NC_001806.1''}, {''NC_001806''})"
    by code_simp
  have s2: "strip ''abc 12.5 x'' = ''abc 12.5 x''" by code_simp
  have c2: "line_candidate ''abc 12.5 x'' = Some ''abc_12.5''" by code_simp
  have a2: "parse_targets_add ({}, {}) ''abc_12.5'' = ({''abc_12.5''}, {''abc_12''})"
    by code_simp
  have s3: "strip ''foo bar'' = ''foo bar''" by code_simp
  have c3: "line_candidate ''foo bar'' = Some ''foo''" by code_simp
  have a3: "parse_targets_add ({}, {}) ''foo'' = ({}, {''foo''})" by code_simp
  have w1: "parse_line ({}, {}) ''  '' = Inr ({}, {})"
    using parse_line_three_strategies [of "({}, {})" "''  ''"] h1 by blast
  have w2: "parse_line ({}, {}) ''# NC_001806.1'' = Inr ({}, {})"
    using parse_line_three_strategies [of "({}, {})" "''# NC_001806.1''"] h2 by blast
  have w3: "parse_line ({}, {}) ''NC 001806.1 Human herpesvirus 1, complete genome''
              = Inr ({''NC_001806.1''}, {''NC_001806''})"
    by (simp add: parse_line_three_strategies [THEN conjunct1] s1 c1 a1 startswith_def)
  have w4: "parse_line ({}, {}) ''abc 12.5 x'' = Inr ({''abc_12.5''}, {''abc_12''})"
    by (simp add: parse_line_three_strategies [THEN conjunct1] s2 c2 a2 startswith_def)
  have w5: "parse_line ({}, {}) ''foo bar'' = Inr ({}, {''foo''})"
    by (simp add: parse_line_three_strategies [THEN conjunct1] s3 c3 a3 startswith_def)
  have s4: "strip ''xx NC 001806.1 y'' = ''xx NC 001806.1 y''" by code_simp
  have u4: "underscored ''xx NC 001806.1 y'' = ''xx_NC_001806.1_y''" by simp
  have c4: "line_candidate ''xx NC 001806.1 y'' = Some ''NC_001806.1''" by code_simp
  have w6: "parse_line ({}, {}) ''xx NC 001806.1 y'' = Inr ({''NC_001806.1''}, {''NC_001806''})"
    by (simp add: parse_line_three_strategies [THEN conjunct1] s4 c4 a1 startswith_def)
  show ?thesis using h1 h2 w1 w2 w3 w4 w5 u4 w6 by (intro conjI)
qed

text \<open>
  C8. Normalization is idempotent on canonical accessions: for an input that already has
  the form of one to three capital letters, an underscore, digits, a dot and digits (such
  as \<open>NC_001806.1\<close>), the normalization of \<open>_add\<close> returns it unchanged, and \<open>_add\<close> puts
  exactly that string into the versioned set and its part before the dot into the
  unversioned set.
\<close>

theorem normalize_acc_idempotent_on_canonical:
  assumes "us \<noteq> []" "length us \<le> 3" "list_all is_upper us"
    and "d1 \<noteq> []" "list_all is_digit d1" "d2 \<noteq> []" "list_all is_digit d2"
  shows "normalize_acc (us @ CHR ''_'' # d1 @ CHR ''.'' # d2)
           = Some (us @ CHR ''_'' # d1 @ CHR ''.'' # d2) \<and>
         before_dot (us @ CHR ''_'' # d1 @ CHR ''.'' # d2) = us @ CHR ''_'' # d1 \<and>
         parse_targets_add (wv, nv) (us @ CHR ''_'' # d1 @ CHR ''.'' # d2)
           = (insert (us @ CHR ''_'' # d1 @ CHR ''.'' # d2) wv, insert (us @ CHR ''_'' # d1) nv)"
proof -
  note n = normalize_acc_canonical [OF assms]
  note b = before_dot_canonical [OF assms(3,5), of d2]
  have "parse_targets_add (wv, nv) (us @ CHR ''_'' # d1 @ CHR ''.'' # d2)
           = (insert (us @ CHR ''_'' # d1 @ CHR ''.'' # d2) wv, insert (us @ CHR ''_'' # d1) nv)"
    unfolding parse_targets_add_def n by (simp add: insert_acc_def b)
  with n b show ?thesis by (intro conjI)
qed

theorem normalize_acc_idempotent_on_canonical_witness:
  "normalize_acc ''NC_001806.1'' = Some ''NC_001806.1'' \<and>
   before_dot ''NC_001806.1'' = ''NC_001806'' \<and>
   parse_targets_add ({}, {}) ''NC_001806.1'' = ({''NC_001806.1''}, {''NC_001806''})"
proof -
  have h: "''NC'' \<noteq> []" "length ''NC'' \<le> 3" "list_all is_upper ''NC''"
    "''001806'' \<noteq> []" "list_all is_digit ''001806''" "''1'' \<noteq> []" "list_all is_digit ''1''"
    by (simp_all add: is_upper_def is_digit_def)
  show ?thesis
    using normalize_acc_idempotent_on_canonical [OF h, of "{}" "{}"] by simp
qed

text \<open>
  C4. For the accepted and normalized candidate of a list line: when it contains a dot,
  the whole string is added to the versioned set and its part before the first dot to the
  unversioned set; otherwise the string is added to the unversioned set only. Hence, in the
  sets that \<open>parse_targets\<close> builds, every versioned entry has its part before the first dot
  in the unversioned set, and that part is a prefix of the entry, followed by the dot.
\<close>

theorem parse_targets_add_versioned_prefix:
  "parse_line T raw =
     Inr (case line_normalized raw of
            None \<Rightarrow> T
          | Some a \<Rightarrow>
              if CHR ''.'' \<in> set a
              then (insert a (fst T), insert (before_dot a) (snd T))
              else (fst T, insert a (snd T))) \<and>
   (parse_lines ({}, {}) ls = Inr (W, N) \<longrightarrow>
      (\<forall>v \<in> W. before_dot v \<in> N \<and> (\<exists>ver. v = before_dot v @ CHR ''.'' # ver)))"
proof -
  have 1: "parse_line T raw =
     Inr (case line_normalized raw of
            None \<Rightarrow> T
          | Some a \<Rightarrow>
              if CHR ''.'' \<in> set a
              then (insert a (fst T), insert (before_dot a) (snd T))
              else (fst T, insert a (snd T)))"
    by (simp add: parse_line_normalized insert_acc_def split: option.splits)
  have 2: "parse_lines ({}, {}) ls = Inr (W, N) \<longrightarrow>
      (\<forall>v \<in> W. before_dot v \<in> N \<and> (\<exists>ver. v = before_dot v @ CHR ''.'' # ver))"
  proof
    assume p: "parse_lines ({}, {}) ls = Inr (W, N)"
    have "targets_ok ({}, {})" by (simp add: targets_ok_def)
    from parse_lines_ok [OF this p] have "targets_ok (W, N)" .
    then show "\<forall>v \<in> W. before_dot v \<in> N \<and> (\<exists>ver. v = before_dot v @ CHR ''.'' # ver)"
      using dotted_split by (auto simp: targets_ok_def)
  qed
  from 1 2 show ?thesis by (intro conjI)
qed

theorem parse_targets_add_versioned_prefix_witness:
  "parse_lines ({}, {}) [''NC 001806.1 Human herpesvirus 1'', ''foo bar'']
     = Inr ({''NC_001806.1''}, {''NC_001806'', ''foo''}) \<and>
   before_dot ''NC_001806.1'' \<in> {''NC_001806'', ''foo''} \<and>
   (\<exists>ver. ''NC_001806.1'' = before_dot ''NC_001806.1'' @ CHR ''.'' # ver)"
proof -
  have p: "parse_lines ({}, {}) [''NC 001806.1 Human herpesvirus 1'', ''foo bar'']
     = Inr ({''NC_001806.1''}, {''NC_001806'', ''foo''})"
    by code_simp
  show ?thesis
    using p parse_targets_add_versioned_prefix
      [of "({}, {})" "[]" "[''NC 001806.1 Human herpesvirus 1'', ''foo bar'']"
          "{''NC_001806.1''}" "{''NC_001806'', ''foo''}"]
    by blast
qed

text \<open>
  C7. For every list file none of whose lines yields a normalized candidate with a dot,
  the versioned target set is empty; then, with \<open>ignore_version\<close> false, no record
  matches, and a run that reads the FASTA file counts every record and keeps none.
\<close>

theorem no_versioned_targets_no_match:
  assumes "read_lines fs list_path = Some ls"
    and "list_all (\<lambda>raw. no_dot (line_normalized raw)) ls"
  shows "(\<exists>N. parse_targets fs list_path = Inr ({}, N) \<and>
              (\<forall>acc_wv acc_nv. \<not> record_match ({}, N) False acc_wv acc_nv)) \<and>
         (filter_fasta fs fasta_path list_path out_path False = Inl OSError \<or>
          (\<exists>fl. read_lines fs fasta_path = Some fl \<and>
                filter_fasta fs fasta_path list_path out_path False
                  = Inr (0, length (fasta_records fl), [])))"
proof -
  from parse_lines_no_dot [OF assms(2), of "{}" "{}"] obtain N where
    "parse_lines ({}, {}) ls = Inr ({}, N)" by blast
  then have p: "parse_targets fs list_path = Inr ({}, N)"
    using assms(1) by (simp add: parse_targets_def)
  have m: "\<forall>acc_wv acc_nv. \<not> record_match ({}, N) False acc_wv acc_nv"
    using record_match_no_versioned by blast
  have f: "filter_fasta fs fasta_path list_path out_path False = Inl OSError \<or>
          (\<exists>fl. read_lines fs fasta_path = Some fl \<and>
                filter_fasta fs fasta_path list_path out_path False
                  = Inr (0, length (fasta_records fl), []))"
  proof (cases "open_out fs out_path")
    case (Inl e)
    then have "e = OSError" by (auto simp: open_out_def split: option.splits if_splits)
    with Inl p show ?thesis by (simp add: filter_fasta_def py_bind_def)
  next
    case (Inr u)
    show ?thesis
    proof (cases "read_lines fs fasta_path")
      case None
      with Inr p show ?thesis by (simp add: filter_fasta_def py_bind_def)
    next
      case (Some fl)
      have "filter_loop ({}, N) False (0, 0, []) (fasta_records fl)
              = Inr (0, 0 + length (fasta_records fl), [])"
        by (rule filter_loop_no_match) (rule record_match_no_versioned)
      with Some Inr p show ?thesis by (simp add: filter_fasta_def py_bind_def)
    qed
  qed
  from p m f show ?thesis by blast
qed

theorem no_versioned_targets_no_match_witness:
  "read_lines demo_fs ''list.txt'' = Some [''NC_001806 Human herpesvirus 1'', ''# NC_001806.1''] \<and>
   list_all (\<lambda>raw. no_dot (line_normalized raw)) [''NC_001806 Human herpesvirus 1'', ''# NC_001806.1''] \<and>
   parse_targets demo_fs ''list.txt'' = Inr ({}, {''NC_001806''}) \<and>
   filter_fasta demo_fs ''v.fa'' ''list.txt'' None False = Inr (0, 2, []) \<and>
   filter_fasta demo_fs ''v.fa'' ''list.txt'' None True = Inr (1, 2, [''>NC_001806.1 x'', ''ACGT''])"
proof -
  have h1: "read_lines demo_fs ''list.txt'' = Some [''NC_001806 Human herpesvirus 1'', ''# NC_001806.1'']"
    by (simp add: demo_fs_def)
  have h2: "list_all (\<lambda>raw. no_dot (line_normalized raw)) [''NC_001806 Human herpesvirus 1'', ''# NC_001806.1'']"
    by code_simp
  have p: "parse_targets demo_fs ''list.txt'' = Inr ({}, {''NC_001806''})" by code_simp
  have r: "read_lines demo_fs ''v.fa'' = Some [''>NC_001806.1 x'', ''ACGT'', ''>NC_000001.1'', ''TT'']"
    by (simp add: demo_fs_def)
  have n: "length (fasta_records [''>NC_001806.1 x'', ''ACGT'', ''>NC_000001.1'', ''TT'']) = 2"
    by code_simp
  have o: "filter_fasta demo_fs ''v.fa'' ''list.txt'' None False \<noteq> Inl OSError"
    by code_simp
  have t: "filter_fasta demo_fs ''v.fa'' ''list.txt'' None True = Inr (1, 2, [''>NC_001806.1 x'', ''ACGT''])"
    by code_simp
  have "filter_fasta demo_fs ''v.fa'' ''list.txt'' None False = Inr (0, 2, [])"
    using no_versioned_targets_no_match [OF h1 h2, of "''v.fa''" None] o r n by auto
  with h1 h2 p t show ?thesis by (intro conjI)
qed




text \<open>
  C9. A list file or FASTA file that cannot be opened for reading, or an output path that
  cannot be opened for writing, ends the run with an I/O error (\<open>OSError\<close>) and nothing
  is printed to the diagnostic stream: the summary line is printed only when
  \<open>filter_fasta\<close> has returned its counts, and never when the run ends with an exception.
\<close>

theorem io_failure_aborts_before_summary:
  "((read_lines fs (list_file a) = None \<or> read_lines fs (fasta a) = None \<or>
     (out a \<noteq> [] \<and> out a \<noteq> ''-'' \<and> \<not> can_write fs (out a)))
      \<longrightarrow> main fs a = ([], Inl OSError)) \<and>
   (fst (main fs a) \<noteq> [] \<longrightarrow>
      snd (main fs a) = Inr 0 \<and>
      (\<exists>kept tot outl.
         filter_fasta fs (fasta a) (list_file a) (Some (out a)) (ignore_version a)
           = Inr (kept, tot, outl))) \<and>
   (\<forall>e. snd (main fs a) = Inl e \<longrightarrow> fst (main fs a) = [])"
proof -
  have 1: "(read_lines fs (list_file a) = None \<or> read_lines fs (fasta a) = None \<or>
     (out a \<noteq> [] \<and> out a \<noteq> ''-'' \<and> \<not> can_write fs (out a)))
      \<longrightarrow> main fs a = ([], Inl OSError)"
    using filter_fasta_io_failure [of fs "list_file a" "fasta a" "out a" "ignore_version a"]
    by (simp add: main_def)
  have 2: "fst (main fs a) \<noteq> [] \<longrightarrow>
      snd (main fs a) = Inr 0 \<and>
      (\<exists>kept tot outl.
         filter_fasta fs (fasta a) (list_file a) (Some (out a)) (ignore_version a)
           = Inr (kept, tot, outl))"
    by (auto simp: main_def split: sum.splits)
  have 3: "\<forall>e. snd (main fs a) = Inl e \<longrightarrow> fst (main fs a) = []"
    by (auto simp: main_def split: sum.splits)
  from 1 2 3 show ?thesis by (intro conjI)
qed

theorem io_failure_aborts_before_summary_witness:
  "read_lines demo_fs ''missing.txt'' = None \<and>
   main demo_fs \<lparr> fasta = ''v.fa'', list_file = ''missing.txt'', out = ''-'', ignore_version = True \<rparr>
     = ([], Inl OSError) \<and>
   \<not> can_write demo_fs ''out.fa'' \<and>
   main demo_fs \<lparr> fasta = ''v.fa'', list_file = ''list.txt'', out = ''out.fa'', ignore_version = True \<rparr>
     = ([], Inl OSError) \<and>
   main demo_fs \<lparr> fasta = ''v.fa'', list_file = ''list.txt'', out = ''-'', ignore_version = True \<rparr>
     = ([''[filter_fasta_by_list] Kept 1 / 2 records''], Inr 0)"
proof -
  have h1: "read_lines demo_fs ''missing.txt'' = None" by (simp add: demo_fs_def)
  have h2: "\<not> can_write demo_fs ''out.fa''" by (simp add: demo_fs_def)
  have w1: "main demo_fs \<lparr> fasta = ''v.fa'', list_file = ''missing.txt'', out = ''-'', ignore_version = True \<rparr>
     = ([], Inl OSError)"
    using io_failure_aborts_before_summary
      [of demo_fs "\<lparr> fasta = ''v.fa'', list_file = ''missing.txt'', out = ''-'', ignore_version = True \<rparr>"]
      h1 by simp
  have w2: "main demo_fs \<lparr> fasta = ''v.fa'', list_file = ''list.txt'', out = ''out.fa'', ignore_version = True \<rparr>
     = ([], Inl OSError)"
    using io_failure_aborts_before_summary
      [of demo_fs "\<lparr> fasta = ''v.fa'', list_file = ''list.txt'', out = ''out.fa'', ignore_version = True \<rparr>"]
      h2 by simp
  have w3: "main demo_fs \<lparr> fasta = ''v.fa'', list_file = ''list.txt'', out = ''-'', ignore_version = True \<rparr>
     = ([''[filter_fasta_by_list] Kept 1 / 2 records''], Inr 0)"
    by code_simp
  from h1 h2 w1 w2 w3 show ?thesis by (intro conjI)
qed

end
